theory Spec2Isabelle
  imports Complex_Main "HOL-Library.Word" "HOL-Library.Multiset"
begin

unbundle bit_operations_syntax

section \<open>JavaScript numbers and typed arrays\<close>

text \<open>
  The pipeline of \<^verbatim>\<open>src/lib/openscad.ts\<close> (second module of that file: tile fetch, decode,
  stitch, crop, normalize) computes with JavaScript numbers. Geographic quantities
  (degrees, kilometres, tile fractions) are modelled as \<^typ>\<open>real\<close>: arithmetic is exact,
  the rounding of binary64 is not modelled. Tile indices and pixel offsets are \<^typ>\<open>int\<close>.
  Raster cells and the running minimum and maximum can be \<^verbatim>\<open>NaN\<close> or infinite in the
  source (an out-of-range read of a typed array is \<^verbatim>\<open>undefined\<close>, the extrema start at
  \<^verbatim>\<open>Infinity\<close> and \<^verbatim>\<open>-Infinity\<close>), so they get a type of their own. Signed zeros are
  identified.
\<close>

datatype jsnum = Fin real | PInf | NInf | NaN



text \<open>\<^verbatim>\<open>a - b\<close>.\<close>

fun js_sub :: "jsnum \<Rightarrow> jsnum \<Rightarrow> jsnum" where
  "js_sub NaN _ = NaN"
| "js_sub _ NaN = NaN"
| "js_sub (Fin a) (Fin b) = Fin (a - b)"
| "js_sub (Fin a) PInf = NInf"
| "js_sub (Fin a) NInf = PInf"
| "js_sub PInf PInf = NaN"
| "js_sub PInf _ = PInf"
| "js_sub NInf NInf = NaN"
| "js_sub NInf _ = NInf"

text \<open>\<^verbatim>\<open>a / b\<close>. A finite value divided by zero is infinite with the sign of the dividend
  (the divisor's zero is taken as \<^verbatim>\<open>+0\<close>), and \<^verbatim>\<open>0 / 0\<close> is \<^verbatim>\<open>NaN\<close>.\<close>

fun js_div :: "jsnum \<Rightarrow> jsnum \<Rightarrow> jsnum" where
  "js_div NaN _ = NaN"
| "js_div _ NaN = NaN"
| "js_div (Fin a) (Fin b) =
     (if b \<noteq> 0 then Fin (a / b) else if a = 0 then NaN else if 0 < a then PInf else NInf)"
| "js_div (Fin a) PInf = Fin 0"
| "js_div (Fin a) NInf = Fin 0"
| "js_div PInf (Fin b) = (if 0 \<le> b then PInf else NInf)"
| "js_div NInf (Fin b) = (if 0 \<le> b then NInf else PInf)"
| "js_div PInf _ = NaN"
| "js_div NInf _ = NaN"

text \<open>\<^verbatim>\<open>a * b\<close>.\<close>

fun js_mul :: "jsnum \<Rightarrow> jsnum \<Rightarrow> jsnum" where
  "js_mul NaN _ = NaN"
| "js_mul _ NaN = NaN"
| "js_mul (Fin a) (Fin b) = Fin (a * b)"
| "js_mul (Fin a) PInf = (if a = 0 then NaN else if 0 < a then PInf else NInf)"
| "js_mul (Fin a) NInf = (if a = 0 then NaN else if 0 < a then NInf else PInf)"
| "js_mul PInf (Fin b) = (if b = 0 then NaN else if 0 < b then PInf else NInf)"
| "js_mul NInf (Fin b) = (if b = 0 then NaN else if 0 < b then NInf else PInf)"
| "js_mul PInf PInf = PInf"
| "js_mul PInf NInf = NInf"
| "js_mul NInf PInf = NInf"
| "js_mul NInf NInf = PInf"

text \<open>\<^verbatim>\<open>Math.round\<close> on a real: the nearest integer, a tie going up.\<close>

definition round_half_up :: "real \<Rightarrow> int" where
  "round_half_up x = \<lfloor>x + 1 / 2\<rfloor>"

text \<open>\<^verbatim>\<open>Math.round\<close> on a number: \<^verbatim>\<open>NaN\<close> and the infinities are returned as they are.\<close>

fun js_round :: "jsnum \<Rightarrow> jsnum" where
  "js_round (Fin a) = Fin (of_int (round_half_up a))"
| "js_round v = v"

text \<open>\<^verbatim>\<open>a || b\<close> on numbers: \<^verbatim>\<open>a\<close> unless it is zero or \<^verbatim>\<open>NaN\<close>.\<close>

definition js_or :: "jsnum \<Rightarrow> jsnum \<Rightarrow> jsnum" where
  "js_or a b = (if a = Fin 0 \<or> a = NaN then b else a)"

text \<open>Storing a number in a \<^verbatim>\<open>Uint8Array\<close> (the conversion ToUint8): a value that is
  not finite becomes 0, a finite one is truncated towards zero and reduced modulo 256.\<close>

fun toUint8 :: "jsnum \<Rightarrow> 8 word" where
  "toUint8 (Fin a) = word_of_int (if 0 \<le> a then \<lfloor>a\<rfloor> else \<lceil>a\<rceil>)"
| "toUint8 _ = 0"

text \<open>Reading index \<open>i\<close> of a typed array: \<^verbatim>\<open>undefined\<close> (here \<open>None\<close>) outside
  \<open>0 \<le> i < length\<close>.\<close>

definition ta_get :: "'a list \<Rightarrow> int \<Rightarrow> 'a option" where
  "ta_get xs i = (if 0 \<le> i \<and> i < int (length xs) then Some (xs ! nat i) else None)"

text \<open>Writing index \<open>i\<close> of a typed array: ignored outside \<open>0 \<le> i < length\<close>.\<close>

definition ta_set :: "'a list \<Rightarrow> int \<Rightarrow> 'a \<Rightarrow> 'a list" where
  "ta_set xs i v = (if 0 \<le> i \<and> i < int (length xs) then xs[nat i := v] else xs)"

section \<open>Slippy-map tile math\<close>






section \<open>Fetching and decoding one Terrarium tile\<close>

text \<open>What \<^verbatim>\<open>ctx.getImageData\<close> returns: RGBA bytes, row-major, four per pixel.\<close>

record ImageData =
  data :: "8 word list"
  width :: nat
  height :: nat

text \<open>A decoded tile: the object \<^verbatim>\<open>{ elev, width, height }\<close>.\<close>

record Tile =
  elev :: "jsnum list"
  twidth :: nat
  theight :: nat

text \<open>The right-hand side of the assignment to \<^verbatim>\<open>elev[i]\<close>. A channel read beyond the
  end of \<^verbatim>\<open>data\<close> is \<^verbatim>\<open>undefined\<close> and makes the sum \<^verbatim>\<open>NaN\<close>.\<close>

definition decodePixel :: "8 word list \<Rightarrow> nat \<Rightarrow> jsnum" where
  "decodePixel d i =
     (let off = i * 4 in
      case (ta_get d (int off), ta_get d (int off + 1), ta_get d (int off + 2)) of
        (Some r, Some g, Some b) \<Rightarrow>
          Fin (real (unat r) * 256 + real (unat g) + real (unat b) / 256 - 32768)
      | _ \<Rightarrow> NaN)"

text \<open>The decoding loop of \<^verbatim>\<open>fetchAndDecodeTile\<close> over \<open>i < width * height\<close>.\<close>

definition decodeTile :: "ImageData \<Rightarrow> Tile" where
  "decodeTile img =
     \<lparr> elev = map (decodePixel (data img)) [0 ..< width img * height img],
       twidth = width img, theight = height img \<rparr>"

text \<open>What the network and the image decoder deliver for one tile request: the
  \<^verbatim>\<open>fetch\<close> promise rejects, or it resolves to a response with a status and, when the
  body decodes as an image, the pixels that \<^verbatim>\<open>getImageData\<close> reads back.\<close>

datatype fetchOutcome = NetworkError | Response nat "ImageData option"

text \<open>The exceptions of the pipeline. \<open>TileError z x y status\<close> is the
  \<^verbatim>\<open>Error\<close> whose message is built from the tile coordinate and \<^verbatim>\<open>res.status\<close>;
  \<open>FetchRejected\<close> and \<open>DecodeRejected\<close> are the rejections of \<^verbatim>\<open>fetch\<close> and of
  \<^verbatim>\<open>createImageBitmap\<close>; the last three are thrown by the platform's constructors
  and canvas methods.\<close>

datatype error =
    TileError int int int nat
  | FetchRejected
  | DecodeRejected
  | RangeError
  | TypeError
  | IndexSizeError

text \<open>\<^verbatim>\<open>res.ok\<close>: the status is in the range 200 to 299.\<close>

definition res_ok :: "nat \<Rightarrow> bool" where
  "res_ok status = (200 \<le> status \<and> status \<le> 299)"

definition fetchAndDecodeTile ::
  "(int \<Rightarrow> int \<Rightarrow> int \<Rightarrow> fetchOutcome) \<Rightarrow> int \<Rightarrow> int \<Rightarrow> int \<Rightarrow> error + Tile" where
  "fetchAndDecodeTile fetch z x y =
     (case fetch z x y of
        NetworkError \<Rightarrow> Inl FetchRejected
      | Response status body \<Rightarrow>
          if \<not> res_ok status then Inl (TileError z x y status)
          else (case body of
                  None \<Rightarrow> Inl DecodeRejected
                | Some img \<Rightarrow> Inr (decodeTile img)))"

section \<open>Stitching\<close>

definition TS :: int where
  "TS = 256"

text \<open>Storing into a \<^verbatim>\<open>Float32Array\<close> what a typed-array read returned:
  \<^verbatim>\<open>undefined\<close> is stored as \<^verbatim>\<open>NaN\<close>.\<close>

definition f32_of :: "jsnum option \<Rightarrow> jsnum" where
  "f32_of v = (case v of None \<Rightarrow> NaN | Some a \<Rightarrow> a)"

text \<open>The body of the \<^verbatim>\<open>then\<close> callback of one tile: two nested loops that copy the
  tile into the stitched buffer \<open>full\<close> at offset \<open>(ox, oy)\<close>.\<close>

definition copyRow :: "int \<Rightarrow> int \<Rightarrow> int \<Rightarrow> Tile \<Rightarrow> nat \<Rightarrow> jsnum list \<Rightarrow> jsnum list" where
  "copyRow ox oy fullW t y full =
     fold (\<lambda>x full. ta_set full ((oy + int y) * fullW + (ox + int x))
                        (f32_of (ta_get (elev t) (int y * int (twidth t) + int x))))
          [0 ..< twidth t] full"

definition copyTile :: "int \<Rightarrow> int \<Rightarrow> int \<Rightarrow> Tile \<Rightarrow> jsnum list \<Rightarrow> jsnum list" where
  "copyTile ox oy fullW t full = fold (copyRow ox oy fullW t) [0 ..< theight t] full"

text \<open>The tiles in the order in which the two \<^verbatim>\<open>for\<close> loops issue their requests.\<close>

definition gridTiles :: "int \<Rightarrow> int \<Rightarrow> int \<Rightarrow> int \<Rightarrow> (int \<times> int) list" where
  "gridTiles txMin txMax tyMin tyMax =
     concat (map (\<lambda>ty. map (\<lambda>tx. (tx, ty)) [txMin .. txMax]) [tyMin .. tyMax])"

text \<open>\<^verbatim>\<open>await Promise.all(promises)\<close>, with the requests settling in the order of the
  list: each fulfilled request runs its callback on the buffer, and the first rejected
  one is the exception of the \<^verbatim>\<open>await\<close>.\<close>

fun settle ::
  "(int \<Rightarrow> int \<Rightarrow> int \<Rightarrow> fetchOutcome) \<Rightarrow> int \<Rightarrow> int \<Rightarrow> int \<Rightarrow> int \<Rightarrow>
   (int \<times> int) list \<Rightarrow> jsnum list \<Rightarrow> error + jsnum list" where
  "settle fetch zoom txMin tyMin fullW [] full = Inr full"
| "settle fetch zoom txMin tyMin fullW ((tx, ty) # rest) full =
     (case fetchAndDecodeTile fetch zoom tx ty of
        Inl e \<Rightarrow> Inl e
      | Inr t \<Rightarrow>
          settle fetch zoom txMin tyMin fullW rest
            (copyTile ((tx - txMin) * TS) ((ty - tyMin) * TS) fullW t full))"

section \<open>Cropping\<close>




record Crop =
  cropped :: "jsnum list"
  lo :: jsnum
  hi :: jsnum




section \<open>Normalizing and resampling\<close>

text \<open>"Normalize to 0-255".\<close>

definition normalizeTo255 :: "Crop \<Rightarrow> 8 word list" where
  "normalizeTo255 c =
     (let range = js_or (js_sub (hi c) (lo c)) (Fin 1)
      in map (\<lambda>v. toUint8 (js_round (js_mul (js_div (js_sub v (lo c)) range) (Fin 255))))
             (cropped c))"



section \<open>The pipeline\<close>

record TerrainParams =
  centerLat :: real
  centerLon :: real
  areaKm :: real
  outputPx :: int
  zoom :: int


text \<open>What the run depends on besides its parameters: the outcome of each tile request,
  the order in which the requests settle (a rearrangement of the order in which they
  were issued), and the canvas's smoothed \<^verbatim>\<open>drawImage\<close>, which takes the RGBA bytes of
  a \<open>cw \<times> ch\<close> source and gives those of the \<open>px \<times> px\<close> destination.\<close>

record Platform =
  fetch :: "int \<Rightarrow> int \<Rightarrow> int \<Rightarrow> fetchOutcome"
  completion :: "(int \<times> int) list \<Rightarrow> (int \<times> int) list"
  drawImage :: "8 word list \<Rightarrow> nat \<Rightarrow> nat \<Rightarrow> nat \<Rightarrow> 8 word list"



section \<open>Specification of the stitched buffer\<close>

text \<open>A tile request that succeeds with a 256 by 256 image, four bytes per pixel.\<close>

definition tileOK :: "(int \<Rightarrow> int \<Rightarrow> int \<Rightarrow> fetchOutcome) \<Rightarrow> int \<Rightarrow> int \<times> int \<Rightarrow> bool" where
  "tileOK f z t =
     (case f z (fst t) (snd t) of
        Response status (Some img) \<Rightarrow>
          res_ok status \<and> width img = 256 \<and> height img = 256
          \<and> length (data img) = 4 * (width img * height img)
      | _ \<Rightarrow> False)"

text \<open>The elevations of the tile that a successful request decodes to.\<close>

definition tileElev :: "(int \<Rightarrow> int \<Rightarrow> int \<Rightarrow> fetchOutcome) \<Rightarrow> int \<Rightarrow> int \<Rightarrow> int \<Rightarrow> jsnum list" where
  "tileElev f z tx ty = (case fetchAndDecodeTile f z tx ty of Inr t \<Rightarrow> elev t | Inl e \<Rightarrow> [])"

text \<open>Cell \<open>j\<close> of the buffer once the tiles of \<open>S\<close> have been copied into \<open>full\<close>, rows
  being \<open>W\<close> cells wide: the pixel of the tile that covers the cell when that tile is in
  \<open>S\<close>, the old cell otherwise.\<close>

definition stitchedCell ::
  "(int \<Rightarrow> int \<Rightarrow> int \<Rightarrow> fetchOutcome) \<Rightarrow> int \<Rightarrow> int \<Rightarrow> int \<Rightarrow> int \<Rightarrow> (int \<times> int) set \<Rightarrow>
   jsnum list \<Rightarrow> nat \<Rightarrow> jsnum" where
  "stitchedCell f z txMin tyMin W S full j =
     (let r = int j div W; c = int j mod W;
          tx = txMin + c div 256; ty = tyMin + r div 256
      in if (tx, ty) \<in> S
         then tileElev f z tx ty ! (nat (r mod 256) * 256 + nat (c mod 256))
         else full ! j)"

section \<open>The .dat interchange text\<close>

text \<open>\<^verbatim>\<open>heightmapToDat\<close> of the model generator (\<^verbatim>\<open>part_006\<close>). A number of the row is
  rendered by \<^verbatim>\<open>Array.prototype.join\<close> in decimal; \<^verbatim>\<open>undefined\<close>, the value of a read
  beyond the end of the array, is rendered as the empty string.\<close>

definition digitChar :: "nat \<Rightarrow> char" where
  "digitChar d = ''0123456789'' ! d"

fun numToString :: "nat \<Rightarrow> string" where
  "numToString n = (if n < 10 then [digitChar n] else numToString (n div 10) @ [digitChar (n mod 10)])"

declare numToString.simps [simp del]

fun join :: "string \<Rightarrow> string list \<Rightarrow> string" where
  "join sep [] = []"
| "join sep [x] = x"
| "join sep (x # y # ys) = x @ sep @ join sep (y # ys)"

definition cellText :: "8 word option \<Rightarrow> string" where
  "cellText v = (case v of None \<Rightarrow> [] | Some b \<Rightarrow> numToString (unat b))"

definition heightmapToDat :: "8 word list \<Rightarrow> int \<Rightarrow> int \<Rightarrow> string" where
  "heightmapToDat hm w h =
     join [CHR 0x0A]
       (map (\<lambda>y. join '' '' (map (\<lambda>x. cellText (ta_get hm (int y * w + int x))) [0 ..< nat w]))
            (rev [0 ..< nat h]))
     @ [CHR 0x0A]"

text \<open>Reading the text back: lines are ended by a newline, the values of a line are
  separated by blanks and written in decimal.\<close>

fun splitOn :: "char \<Rightarrow> string \<Rightarrow> string list" where
  "splitOn c [] = [[]]"
| "splitOn c (x # xs) =
     (if x = c then [] # splitOn c xs
      else (case splitOn c xs of w # ws \<Rightarrow> (x # w) # ws | [] \<Rightarrow> [[x]]))"

definition digitVal :: "char \<Rightarrow> nat" where
  "digitVal c = of_char c - 48"

definition parseNat :: "string \<Rightarrow> nat" where
  "parseNat s = fold (\<lambda>c n. 10 * n + digitVal c) s 0"

definition datRows :: "string \<Rightarrow> nat list list" where
  "datRows text =
     map (\<lambda>l. map parseNat (filter (\<lambda>t. t \<noteq> []) (splitOn CHR '' '' l)))
         (butlast (splitOn (CHR 0x0A) text))"

text \<open>Row \<open>r\<close> of a row-major grid \<open>w\<close> cells wide, and the line of text for a row.\<close>

definition hmRow :: "8 word list \<Rightarrow> nat \<Rightarrow> nat \<Rightarrow> nat list" where
  "hmRow hm w r = map (\<lambda>x. unat (hm ! (r * w + x))) [0 ..< w]"

definition rowText :: "nat list \<Rightarrow> string" where
  "rowText vs = join '' '' (map numToString vs)"

section \<open>Specification of the normalization\<close>

text \<open>The normalization as the specification words it: the value's position in the
  elevation range, the range being at least \<open>eps\<close>, clamped to \<open>[0, 1]\<close>, scaled to 255
  and rounded.\<close>

definition clamp :: "real \<Rightarrow> real \<Rightarrow> real \<Rightarrow> real" where
  "clamp t a b = min b (max a t)"

definition normalizeSpec :: "real \<Rightarrow> real \<Rightarrow> real \<Rightarrow> real \<Rightarrow> int" where
  "normalizeSpec v eMin eMax eps = round_half_up (clamp ((v - eMin) / max (eMax - eMin) eps) 0 1 * 255)"

section \<open>Mercator ordinate\<close>



section \<open>Specification of the elevation range\<close>




section \<open>Typed arrays\<close>

lemma ta_get_nat: "ta_get xs (int k) = (if k < length xs then Some (xs ! k) else None)"
  by (simp add: ta_get_def)

section \<open>Projection\<close>






section \<open>Decoding\<close>

lemma decodePixel_ok:
  "i * 4 + 2 < length d \<Longrightarrow>
   decodePixel d i = Fin (real (unat (d ! (i * 4))) * 256 + real (unat (d ! (i * 4 + 1)))
      + real (unat (d ! (i * 4 + 2))) / 256 - 32768)"
proof -
  assume a: "i * 4 + 2 < length d"
  have n: "nat (int i * 4) = i * 4" "nat (int i * 4 + 1) = Suc (i * 4)"
    "nat (int i * 4 + 2) = Suc (Suc (i * 4))" by linarith+
  show ?thesis using a by (simp add: decodePixel_def ta_get_def Let_def n)
qed

text \<open>A decoded elevation is a multiple of 1/256 of magnitude at most \<open>2 ^ 15\<close>: it has 24
  significant bits, so storing it in the \<^verbatim>\<open>Float32Array\<close> does not round it.\<close>

lemma decodePixel_float32_exact:
  assumes "i * 4 + 2 < length d"
  shows "\<exists>k::int. decodePixel d i = Fin (of_int k / 256) \<and> - 8388608 \<le> k \<and> k < 8388608"
proof -
  define r g b where "r = int (unat (d ! (i * 4)))" and "g = int (unat (d ! (i * 4 + 1)))"
    and "b = int (unat (d ! (i * 4 + 2)))"
  have bnd: "0 \<le> r" "r < 256" "0 \<le> g" "g < 256" "0 \<le> b" "b < 256"
    using unsigned_less [of "d ! (i * 4)", where 'a = int]
      unsigned_less [of "d ! (i * 4 + 1)", where 'a = int]
      unsigned_less [of "d ! (i * 4 + 2)", where 'a = int]
    by (simp_all add: r_def g_def b_def)
  define k where "k = r * 65536 + g * 256 + b - 8388608"
  have "decodePixel d i = Fin (of_int r * 256 + of_int g + of_int b / 256 - 32768)"
    using decodePixel_ok [OF assms] by (simp add: r_def g_def b_def)
  also have "of_int r * 256 + of_int g + of_int b / 256 - 32768 = (of_int k / 256 :: real)"
    by (simp add: k_def field_simps)
  finally have "decodePixel d i = Fin (of_int k / 256)" .
  moreover have "- 8388608 \<le> k" "k < 8388608" using bnd by (simp_all add: k_def)
  ultimately show ?thesis by blast
qed

text \<open>
  C3. For the pixels of a fetched tile (RGBA bytes, four per pixel, \<open>width * height\<close>
  pixels), the decoder produces one elevation per pixel, and the elevation of pixel \<open>i\<close>
  is \<open>R * 256 + G + B / 256 - 32768\<close> for the three colour bytes of that pixel.
\<close>

theorem decodeTile_terrarium:
  assumes "length (data img) = 4 * (width img * height img)"
    and "i < width img * height img"
  shows "length (elev (decodeTile img)) = width img * height img
    \<and> twidth (decodeTile img) = width img \<and> theight (decodeTile img) = height img
    \<and> elev (decodeTile img) ! i =
        Fin (real (unat (data img ! (i * 4))) * 256 + real (unat (data img ! (i * 4 + 1)))
             + real (unat (data img ! (i * 4 + 2))) / 256 - 32768)"
  using assms by (simp add: decodeTile_def decodePixel_ok)

theorem decodeTile_terrarium_witness:
  "elev (decodeTile \<lparr> data = [134, 57, 64, 255], width = 1, height = 1 \<rparr>) ! 0
     = Fin (1593 + 1 / 4)"
  using decodeTile_terrarium [of "\<lparr> data = [134, 57, 64, 255], width = 1, height = 1 \<rparr>" 0]
  by simp
section \<open>Projection and its inverse\<close>














section \<open>Stitching\<close>

lemma length_ta_set [simp]: "length (ta_set xs i v) = length xs"
  by (simp add: ta_set_def)

lemma nth_ta_set: "j < length xs \<Longrightarrow> ta_set xs i v ! j = (if i = int j then v else xs ! j)"
  by (auto simp: ta_set_def nth_list_update)

lemma fold_nested_product:
  "fold (\<lambda>y. fold (g y) xs) ys s = fold (\<lambda>(y, x). g y x) (List.product ys xs) s"
  by (induction ys arbitrary: s) (simp_all add: fold_map comp_def)

lemma length_fold_ta_set [simp]:
  "length (fold (\<lambda>k f. ta_set f (idx k) (val k)) ks full) = length full"
  by (induction ks arbitrary: full) simp_all

lemma fold_ta_set_other:
  "\<forall>k \<in> set ks. idx k \<noteq> int j \<Longrightarrow> j < length full \<Longrightarrow>
   fold (\<lambda>k f. ta_set f (idx k) (val k)) ks full ! j = full ! j"
  by (induction ks arbitrary: full) (simp_all add: nth_ta_set)

lemma fold_ta_set_hit:
  "inj_on idx (set ks) \<Longrightarrow> k \<in> set ks \<Longrightarrow> idx k = int j \<Longrightarrow> j < length full \<Longrightarrow>
   fold (\<lambda>k f. ta_set f (idx k) (val k)) ks full ! j = val k"
proof (induction ks arbitrary: full rule: rev_induct)
  case Nil
  then show ?case by simp
next
  case (snoc a ks)
  show ?case
  proof (cases "idx a = int j")
    case True
    with snoc.prems have "a = k" by (auto simp: inj_on_def)
    with True snoc.prems show ?thesis by (simp add: nth_ta_set)
  next
    case False
    with snoc.prems have "k \<in> set ks" by auto
    moreover from snoc.prems have "inj_on idx (set ks)" by (auto simp: inj_on_def)
    ultimately have "fold (\<lambda>k f. ta_set f (idx k) (val k)) ks full ! j = val k"
      using snoc.IH snoc.prems by blast
    with False snoc.prems show ?thesis by (simp add: nth_ta_set)
  qed
qed

lemma rowcol_div: "0 \<le> c \<Longrightarrow> c < W \<Longrightarrow> (r * W + c) div W = (r::int)"
  by (simp add: div_pos_pos_trivial)

lemma rowcol_mod: "0 \<le> c \<Longrightarrow> c < W \<Longrightarrow> (r * W + c) mod W = (c::int)"
  by (simp add: mod_pos_pos_trivial)

lemma copyTile_flat:
  "copyTile ox oy W t full =
     fold (\<lambda>k f. ta_set f ((oy + int (fst k)) * W + (ox + int (snd k)))
                     (f32_of (ta_get (elev t) (int (fst k) * int (twidth t) + int (snd k)))))
          (List.product [0 ..< theight t] [0 ..< twidth t]) full"
  unfolding copyTile_def copyRow_def
  by (simp add: fold_nested_product case_prod_unfold)

lemma length_copyTile [simp]: "length (copyTile ox oy W t full) = length full"
  by (simp add: copyTile_flat)

lemma tile_cell_get:
  "length (elev t) = theight t * twidth t \<Longrightarrow> y < theight t \<Longrightarrow> x < twidth t \<Longrightarrow>
   f32_of (ta_get (elev t) (int y * int (twidth t) + int x)) = elev t ! (y * twidth t + x)"
proof -
  assume a: "length (elev t) = theight t * twidth t" "y < theight t" "x < twidth t"
  have "y * twidth t + x < Suc y * twidth t" using a by simp
  also have "\<dots> \<le> theight t * twidth t" using a by (intro mult_le_mono1) simp
  finally have lt: "y * twidth t + x < length (elev t)" using a by simp
  have e: "int y * int (twidth t) + int x = int (y * twidth t + x)" by simp
  show ?thesis unfolding e ta_get_nat using lt by (simp add: f32_of_def)
qed

lemma copyTile_nth:
  assumes len: "length (elev t) = theight t * twidth t"
    and ox: "0 \<le> ox" "ox + int (twidth t) \<le> W"
    and j: "j < length full"
  shows "copyTile ox oy W t full ! j =
     (let r = int j div W; c = int j mod W in
      if oy \<le> r \<and> r < oy + int (theight t) \<and> ox \<le> c \<and> c < ox + int (twidth t)
      then elev t ! (nat (r - oy) * twidth t + nat (c - ox))
      else full ! j)"
proof -
  let ?idx = "\<lambda>k. (oy + int (fst k)) * W + (ox + int (snd k))"
  let ?val = "\<lambda>k. f32_of (ta_get (elev t) (int (fst k) * int (twidth t) + int (snd k)))"
  let ?ks = "List.product [0 ..< theight t] [0 ..< twidth t]"
  let ?r = "int j div W" and ?c = "int j mod W"
  have dm: "?idx k div W = oy + int (fst k) \<and> ?idx k mod W = ox + int (snd k)"
    if "k \<in> set ?ks" for k
  proof -
    from that have "snd k < twidth t" by auto
    then have "0 \<le> ox + int (snd k)" "ox + int (snd k) < W" using ox by simp_all
    then show ?thesis by (simp add: rowcol_div rowcol_mod)
  qed
  have inj: "inj_on ?idx (set ?ks)"
  proof (rule inj_onI)
    fix a b assume ab: "a \<in> set ?ks" "b \<in> set ?ks" "?idx a = ?idx b"
    from dm [OF ab(1)] dm [OF ab(2)] ab(3)
    have "oy + int (fst a) = oy + int (fst b)" "ox + int (snd a) = ox + int (snd b)"
      by metis+
    then show "a = b" by (simp add: prod_eq_iff)
  qed
  show ?thesis
  proof (cases "oy \<le> ?r \<and> ?r < oy + int (theight t) \<and> ox \<le> ?c \<and> ?c < ox + int (twidth t)")
    case True
    define k where "k = (nat (?r - oy), nat (?c - ox))"
    have kin: "k \<in> set ?ks" using True by (auto simp: k_def)
    have "?idx k = ?r * W + ?c" using True by (simp add: k_def)
    also have "\<dots> = int j" by simp
    finally have hit: "?idx k = int j" .
    have "copyTile ox oy W t full ! j = ?val k"
      unfolding copyTile_flat by (rule fold_ta_set_hit [OF inj kin hit j])
    also have "\<dots> = elev t ! (fst k * twidth t + snd k)"
      using kin by (intro tile_cell_get [OF len]) auto
    finally have "copyTile ox oy W t full ! j = elev t ! (nat (?r - oy) * twidth t + nat (?c - ox))"
      by (simp add: k_def)
    then show ?thesis unfolding Let_def if_P [OF True] .
  next
    case False
    have "\<forall>k \<in> set ?ks. ?idx k \<noteq> int j"
    proof
      fix k assume k: "k \<in> set ?ks"
      show "?idx k \<noteq> int j"
      proof
        assume e: "?idx k = int j"
        from dm [OF k] e have "?r = oy + int (fst k)" "?c = ox + int (snd k)" by simp_all
        with k False show False by auto
      qed
    qed
    then have "copyTile ox oy W t full ! j = full ! j"
      unfolding copyTile_flat by (rule fold_ta_set_other [OF _ j])
    then show ?thesis unfolding Let_def if_not_P [OF False] .
  qed
qed

lemma tileOK_decoded:
  assumes "tileOK f z (tx, ty)"
  obtains t where "fetchAndDecodeTile f z tx ty = Inr t" "twidth t = 256" "theight t = 256"
    "length (elev t) = theight t * twidth t"
  using assms
  by (auto simp: tileOK_def fetchAndDecodeTile_def decodeTile_def
      split: fetchOutcome.splits option.splits)

lemma in_tile_iff: "(b * 256 \<le> r \<and> r < b * 256 + 256) = (r div 256 = b)" for r b :: int
proof
  assume a: "b * 256 \<le> r \<and> r < b * 256 + 256"
  then have "(b * 256 + (r - b * 256)) div 256 = b"
    by (intro rowcol_div) simp_all
  then show "r div 256 = b" by simp
next
  assume a: "r div 256 = b"
  have "r = 256 * (r div 256) + r mod 256" by simp
  moreover have "0 \<le> r mod 256" "r mod 256 < 256" by simp_all
  ultimately show "b * 256 \<le> r \<and> r < b * 256 + 256" using a by linarith
qed

lemma in_tile_local: "b * 256 \<le> r \<Longrightarrow> r < b * 256 + 256 \<Longrightarrow> r - b * 256 = r mod 256" for r b :: int
proof -
  assume a: "b * 256 \<le> r" "r < b * 256 + 256"
  then have "(b * 256 + (r - b * 256)) mod 256 = r - b * 256"
    by (intro rowcol_mod) simp_all
  then show ?thesis by simp
qed

lemma settle_cells:
  assumes ok: "\<forall>t \<in> set ts. tileOK f z t \<and> txMin \<le> fst t \<and> fst t \<le> txMax"
    and W: "W = (txMax - txMin + 1) * TS"
  shows "\<exists>full'. settle f z txMin tyMin W ts full = Inr full' \<and> length full' = length full
           \<and> (\<forall>j < length full. full' ! j = stitchedCell f z txMin tyMin W (set ts) full j)"
  using ok
proof (induction ts arbitrary: full)
  case Nil
  then show ?case by (simp add: stitchedCell_def Let_def)
next
  case (Cons a ts)
  obtain tx ty where a: "a = (tx, ty)" by (cases a)
  from Cons.prems a have tok: "tileOK f z (tx, ty)" and tx: "txMin \<le> tx" "tx \<le> txMax" by auto
  from tok obtain t where t: "fetchAndDecodeTile f z tx ty = Inr t" "twidth t = 256"
    "theight t = 256" "length (elev t) = theight t * twidth t" by (rule tileOK_decoded)
  let ?ox = "(tx - txMin) * TS" and ?oy = "(ty - tyMin) * TS"
  let ?full1 = "copyTile ?ox ?oy W t full"
  from Cons.prems have "\<forall>t \<in> set ts. tileOK f z t \<and> txMin \<le> fst t \<and> fst t \<le> txMax" by simp
  from Cons.IH [OF this, of ?full1] obtain full' where
    f': "settle f z txMin tyMin W ts ?full1 = Inr full'" "length full' = length ?full1"
    "\<forall>j < length ?full1. full' ! j = stitchedCell f z txMin tyMin W (set ts) ?full1 j"
    by blast
  have ox: "0 \<le> ?ox" "?ox + int (twidth t) \<le> W"
    using tx t(2) by (simp_all add: W TS_def)
  have cell: "full' ! j = stitchedCell f z txMin tyMin W (set (a # ts)) full j"
    if j: "j < length full" for j
  proof -
    let ?r = "int j div W" and ?c = "int j mod W"
    have st: "?full1 ! j =
       (if ?oy \<le> ?r \<and> ?r < ?oy + 256 \<and> ?ox \<le> ?c \<and> ?c < ?ox + 256
        then elev t ! (nat (?r - ?oy) * 256 + nat (?c - ?ox)) else full ! j)"
      using copyTile_nth [OF t(4) ox j, of ?oy] by (simp add: Let_def t(2,3))
    from f'(3) j have fj: "full' ! j = stitchedCell f z txMin tyMin W (set ts) ?full1 j" by simp
    show ?thesis
    proof (cases "(txMin + ?c div 256, tyMin + ?r div 256) = (tx, ty)")
      case True
      then have own: "tx = txMin + ?c div 256" "ty = tyMin + ?r div 256" by simp_all
      have "?r div 256 = ty - tyMin" "?c div 256 = tx - txMin" using own by simp_all
      then have inr: "?oy \<le> ?r \<and> ?r < ?oy + 256" "?ox \<le> ?c \<and> ?c < ?ox + 256"
        unfolding TS_def in_tile_iff by blast+
      have l: "?r - ?oy = ?r mod 256" "?c - ?ox = ?c mod 256"
        using inr unfolding TS_def by (blast intro: in_tile_local)+
      from st inr have "?full1 ! j = elev t ! (nat (?r mod 256) * 256 + nat (?c mod 256))"
        by (simp add: l)
      moreover have "stitchedCell f z txMin tyMin W (set (a # ts)) full j
          = elev t ! (nat (?r mod 256) * 256 + nat (?c mod 256))"
        using True t(1) by (simp add: stitchedCell_def tileElev_def Let_def a)
      moreover have "stitchedCell f z txMin tyMin W (set ts) ?full1 j
          = elev t ! (nat (?r mod 256) * 256 + nat (?c mod 256))"
        using True t(1) calculation(1) by (simp add: stitchedCell_def tileElev_def Let_def)
      ultimately show ?thesis using fj by simp
    next
      case False
      then have "\<not> (?r div 256 = ty - tyMin \<and> ?c div 256 = tx - txMin)" by auto
      then have "\<not> ((?oy \<le> ?r \<and> ?r < ?oy + 256) \<and> (?ox \<le> ?c \<and> ?c < ?ox + 256))"
        unfolding TS_def in_tile_iff .
      then have "\<not> (?oy \<le> ?r \<and> ?r < ?oy + 256 \<and> ?ox \<le> ?c \<and> ?c < ?ox + 256)" by blast
      then have "?full1 ! j = full ! j" unfolding st by (rule if_not_P)
      moreover have "stitchedCell f z txMin tyMin W (set (a # ts)) full j
          = (if (txMin + ?c div 256, tyMin + ?r div 256) \<in> set ts
             then tileElev f z (txMin + ?c div 256) (tyMin + ?r div 256)
                    ! (nat (?r mod 256) * 256 + nat (?c mod 256))
             else full ! j)"
        using False by (auto simp: stitchedCell_def Let_def a)
      ultimately show ?thesis using fj by (simp add: stitchedCell_def Let_def)
    qed
  qed
  from f'(1) t(1) have "settle f z txMin tyMin W (a # ts) full = Inr full'" by (simp add: a)
  with f'(2) cell show ?case by simp
qed

lemma set_gridTiles:
  "set (gridTiles txMin txMax tyMin tyMax) =
     {t. txMin \<le> fst t \<and> fst t \<le> txMax \<and> tyMin \<le> snd t \<and> snd t \<le> tyMax}"
  by (auto simp: gridTiles_def)

text \<open>
  C8. For fixed tile contents (every request of the run succeeds with a 256 by 256 tile
  inside the columns of the grid), two orders of completion that are rearrangements of
  each other leave the same buffer: each tile writes only its own rectangle.
\<close>

theorem stitch_order_independent:
  assumes perm: "mset o1 = mset o2"
    and ok: "\<forall>t \<in> set o1. tileOK f z t \<and> txMin \<le> fst t \<and> fst t \<le> txMax"
    and W: "W = (txMax - txMin + 1) * TS"
  shows "\<exists>buf. settle f z txMin tyMin W o1 full = Inr buf
             \<and> settle f z txMin tyMin W o2 full = Inr buf"
proof -
  from perm have s: "set o1 = set o2" by (rule mset_eq_setD)
  from settle_cells [OF ok W, of tyMin full] obtain b1 where
    b1: "settle f z txMin tyMin W o1 full = Inr b1" "length b1 = length full"
      "\<forall>j < length full. b1 ! j = stitchedCell f z txMin tyMin W (set o1) full j" by blast
  from ok s have ok2: "\<forall>t \<in> set o2. tileOK f z t \<and> txMin \<le> fst t \<and> fst t \<le> txMax" by simp
  from settle_cells [OF ok2 W, of tyMin full] obtain b2 where
    b2: "settle f z txMin tyMin W o2 full = Inr b2" "length b2 = length full"
      "\<forall>j < length full. b2 ! j = stitchedCell f z txMin tyMin W (set o2) full j" by blast
  have "b1 = b2"
    by (rule nth_equalityI) (simp_all add: b1 b2 s)
  with b1(1) b2(1) show ?thesis by simp
qed

text \<open>
  C6. For a grid of \<open>tw\<close> by \<open>th\<close> tiles whose requests all succeed with 256 by 256 tiles,
  whatever the order of completion, the stitched buffer has \<open>(tw * 256) * (th * 256)\<close>
  cells in rows of \<open>tw * 256\<close>, and pixel \<open>(x, y)\<close> of tile \<open>(tx, ty)\<close> is the cell at row
  \<open>(ty - tyMin) * 256 + y\<close> and column \<open>(tx - txMin) * 256 + x\<close>.
\<close>

theorem stitch_placement:
  assumes perm: "mset order = mset (gridTiles txMin txMax tyMin tyMax)"
    and ok: "\<forall>t \<in> set (gridTiles txMin txMax tyMin tyMax). tileOK f z t"
    and tw: "tw = txMax - txMin + 1" and th: "th = tyMax - tyMin + 1"
  shows "\<exists>full.
      settle f z txMin tyMin (tw * TS) order (replicate (nat ((tw * TS) * (th * TS))) (Fin 0))
        = Inr full
    \<and> int (length full) = max 0 ((tw * 256) * (th * 256))
    \<and> (\<forall>tx ty x y t.
          txMin \<le> tx \<and> tx \<le> txMax \<and> tyMin \<le> ty \<and> ty \<le> tyMax \<and> x < 256 \<and> y < 256
          \<and> fetchAndDecodeTile f z tx ty = Inr t \<longrightarrow>
          ta_get full (((ty - tyMin) * 256 + int y) * (tw * 256) + ((tx - txMin) * 256 + int x))
            = Some (elev t ! (y * 256 + x)))"
proof -
  let ?W = "tw * TS" and ?H = "th * TS"
  let ?full0 = "replicate (nat (?W * ?H)) (Fin 0)"
  from perm have s: "set order = set (gridTiles txMin txMax tyMin tyMax)" by (rule mset_eq_setD)
  have ok': "\<forall>t \<in> set order. tileOK f z t \<and> txMin \<le> fst t \<and> fst t \<le> txMax"
    using ok s by (simp add: set_gridTiles)
  have W: "?W = (txMax - txMin + 1) * TS" by (simp add: tw)
  from settle_cells [OF ok' W, of tyMin ?full0] obtain full where
    full: "settle f z txMin tyMin ?W order ?full0 = Inr full" "length full = length ?full0"
      "\<forall>j < length ?full0. full ! j = stitchedCell f z txMin tyMin ?W (set order) ?full0 j"
    by blast
  have len: "int (length full) = max 0 ((tw * 256) * (th * 256))"
    using full(2) by (simp add: TS_def max_def)
  have place: "ta_get full (((ty - tyMin) * 256 + int y) * (tw * 256) + ((tx - txMin) * 256 + int x))
            = Some (elev t ! (y * 256 + x))"
    if h: "txMin \<le> tx" "tx \<le> txMax" "tyMin \<le> ty" "ty \<le> tyMax" "x < 256" "y < 256"
      "fetchAndDecodeTile f z tx ty = Inr t" for tx ty x y t
  proof -
    define a b where "a = tx - txMin" and "b = ty - tyMin"
    define c r where "c = a * 256 + int x" and "r = b * 256 + int y"
    have ab: "0 \<le> a" "a < tw" "0 \<le> b" "b < th" using h by (simp_all add: a_def b_def tw th)
    have c: "0 \<le> c" "c < tw * 256" using ab h by (simp_all add: c_def)
    have r: "0 \<le> r" "r < th * 256" using ab h by (simp_all add: r_def)
    define j where "j = nat (r * (tw * 256) + c)"
    have jint: "int j = r * (tw * 256) + c" using c r by (simp add: j_def)
    have "r * (tw * 256) + c < (r + 1) * (tw * 256)" using c by (simp add: algebra_simps)
    also have "\<dots> \<le> (th * 256) * (tw * 256)"
      using r c by (intro mult_right_mono) simp_all
    finally have jlt: "int j < (tw * 256) * (th * 256)" by (simp add: jint mult.commute)
    then have jlen: "j < length full" using len by simp
    have d: "int j div (tw * 256) = r" "int j mod (tw * 256) = c"
      unfolding jint using c by (simp_all add: rowcol_div rowcol_mod)
    have cd: "c div 256 = a" "c mod 256 = int x" 
      unfolding c_def using h by (simp_all add: rowcol_div rowcol_mod)
    have rd: "r div 256 = b" "r mod 256 = int y"
      unfolding r_def using h by (simp_all add: rowcol_div rowcol_mod)
    have mem: "(tx, ty) \<in> set order" using h by (simp add: s set_gridTiles)
    have "full ! j = stitchedCell f z txMin tyMin ?W (set order) ?full0 j"
      using full(2,3) jlen by simp
    also have "\<dots> = elev t ! (y * 256 + x)"
      using mem h(7) by (simp add: stitchedCell_def Let_def TS_def d cd rd a_def b_def tileElev_def)
    finally have "full ! j = elev t ! (y * 256 + x)" .
    moreover have "ta_get full (r * (tw * 256) + c) = Some (full ! j)"
      using jlen c r by (simp add: ta_get_def j_def)
    ultimately show ?thesis by (simp add: c_def r_def a_def b_def)
  qed
  from full(1) len place show ?thesis by blast
qed

theorem stitch_order_independent_witness:
  "\<exists>buf.
     settle (\<lambda>z x y. Response 200 (Some \<lparr> data = replicate 262144 0, width = 256, height = 256 \<rparr>))
        0 0 0 512 [(0, 0), (1, 0)] (replicate 131072 (Fin 0)) = Inr buf
   \<and> settle (\<lambda>z x y. Response 200 (Some \<lparr> data = replicate 262144 0, width = 256, height = 256 \<rparr>))
        0 0 0 512 [(1, 0), (0, 0)] (replicate 131072 (Fin 0)) = Inr buf"
  using stitch_order_independent
    [of "[(0, 0), (1, 0)]" "[(1, 0), (0, 0)]"
        "\<lambda>z x y. Response 200 (Some \<lparr> data = replicate 262144 0, width = 256, height = 256 \<rparr>)"
        0 0 1 512 0 "replicate 131072 (Fin 0)"]
  by (simp add: tileOK_def res_ok_def TS_def)

lemma gridTiles_single: "gridTiles a a b b = [(a, b)]"
  by (simp add: gridTiles_def)

theorem stitch_placement_witness:
  "\<exists>full.
     settle (\<lambda>z x y. Response 200 (Some \<lparr> data = replicate 262144 0, width = 256, height = 256 \<rparr>))
        0 0 0 (1 * TS) [(0, 0)] (replicate (nat ((1 * TS) * (1 * TS))) (Fin 0)) = Inr full
   \<and> int (length full) = 65536
   \<and> ta_get full 257 = Some (Fin (- 32768))"
proof -
  let ?f = "\<lambda>z x y :: int. Response 200 (Some \<lparr> data = replicate 262144 0, width = 256, height = 256 \<rparr>)"
  have h1: "mset [(0, 0)] = mset (gridTiles 0 0 0 0)" by (simp add: gridTiles_single)
  have h2: "\<forall>t \<in> set (gridTiles 0 0 0 0). tileOK ?f 0 t"
    by (simp add: gridTiles_single tileOK_def res_ok_def)
  have h3: "(1::int) = 0 - 0 + 1" by simp
  from stitch_placement [OF h1 h2 h3 h3] obtain full where
    full: "settle ?f 0 0 0 (1 * TS) [(0, 0)] (replicate (nat ((1 * TS) * (1 * TS))) (Fin 0)) = Inr full"
      "int (length full) = max 0 ((1 * 256) * (1 * 256))"
      "\<And>tx ty x y t. 0 \<le> tx \<and> tx \<le> 0 \<and> 0 \<le> ty \<and> ty \<le> 0 \<and> x < 256 \<and> y < 256
          \<and> fetchAndDecodeTile ?f 0 tx ty = Inr t \<Longrightarrow>
          ta_get full (((ty - 0) * 256 + int y) * (1 * 256) + ((tx - 0) * 256 + int x))
            = Some (elev t ! (y * 256 + x))"
    by blast
  have "ta_get full (((0 - 0) * 256 + int 1) * (1 * 256) + ((0 - 0) * 256 + int 1))
      = Some (elev (decodeTile \<lparr> data = replicate 262144 0, width = 256, height = 256 \<rparr>) ! (1 * 256 + 1))"
    by (rule full(3)) (simp add: fetchAndDecodeTile_def res_ok_def)
  moreover have "elev (decodeTile \<lparr> data = replicate 262144 0, width = 256, height = 256 \<rparr>) ! (1 * 256 + 1)
      = Fin (- 32768)"
    by (simp add: decodeTile_def decodePixel_def ta_get_def)
  ultimately have "ta_get full 257 = Some (Fin (- 32768))" by simp
  with full(1,2) show ?thesis by auto
qed
section \<open>Cropping\<close>

















section \<open>Normalizing\<close>

lemma toUint8_int: "toUint8 (Fin (of_int k)) = word_of_int k"
  by simp

lemma normalizeTo255_cell:
  "normalizeTo255 \<lparr> cropped = map Fin vs, lo = Fin m, hi = Fin M \<rparr> =
     map (\<lambda>v. word_of_int (round_half_up ((v - m) / (if M - m = 0 then 1 else M - m) * 255))) vs"
  by (simp add: normalizeTo255_def js_or_def Let_def comp_def)

lemma unat_byte: "0 \<le> k \<Longrightarrow> k \<le> 255 \<Longrightarrow> int (unat (word_of_int k :: 8 word)) = k"
  by (simp add: unat_eq_nat_uint uint_word_of_int take_bit_int_eq_self)

lemma round_half_up_bounds: "0 \<le> t \<Longrightarrow> t \<le> 1 \<Longrightarrow> 0 \<le> round_half_up (t * 255) \<and> round_half_up (t * 255) \<le> 255"
proof -
  assume t: "0 \<le> t" "t \<le> 1"
  have "0 \<le> t * 255 + 1 / 2" using t by simp
  then have 1: "0 \<le> round_half_up (t * 255)" unfolding round_half_up_def by simp
  have "t * 255 + 1 / 2 < 256" using t by simp
  then have "round_half_up (t * 255) < 256" unfolding round_half_up_def by (simp add: floor_less_iff)
  with 1 show ?thesis by simp
qed

lemma crop_record: "cropped c = vs \<Longrightarrow> lo c = l \<Longrightarrow> hi c = h \<Longrightarrow> c = \<lparr> cropped = vs, lo = l, hi = h \<rparr>"
  by (cases c) simp

text \<open>
  C1. For a cropped raster of finite values \<open>vs\<close> with its minimum and maximum as \<open>lo\<close> and
  \<open>hi\<close>, and for every \<open>eps > 0\<close> that does not exceed the range when the range is not
  zero, the normalizer maps each value to the specification's
  \<open>round (clamp ((v - lo) / max (hi - lo) eps) 0 1 * 255)\<close>. That byte lies in \<open>[0, 255]\<close>; a
  value equal to the minimum maps to 0, a value equal to the maximum maps to 255 unless
  the raster is flat, and on a flat raster every value maps to 0.
\<close>

theorem normalize_formula:
  assumes cr: "cropped c = map Fin vs"
    and lo: "lo c = Fin (Min (set vs))" and hi: "hi c = Fin (Max (set vs))"
    and eps: "0 < eps" "Min (set vs) < Max (set vs) \<Longrightarrow> eps \<le> Max (set vs) - Min (set vs)"
    and i: "i < length vs"
  shows "length (normalizeTo255 c) = length vs
    \<and> int (unat (normalizeTo255 c ! i)) = normalizeSpec (vs ! i) (Min (set vs)) (Max (set vs)) eps
    \<and> 0 \<le> normalizeSpec (vs ! i) (Min (set vs)) (Max (set vs)) eps
    \<and> normalizeSpec (vs ! i) (Min (set vs)) (Max (set vs)) eps \<le> 255
    \<and> (vs ! i = Min (set vs) \<longrightarrow> normalizeTo255 c ! i = 0)
    \<and> (vs ! i = Max (set vs) \<and> Min (set vs) < Max (set vs) \<longrightarrow> normalizeTo255 c ! i = 255)
    \<and> (Min (set vs) = Max (set vs) \<longrightarrow> normalizeTo255 c ! i = 0)"
proof -
  let ?m = "Min (set vs)" and ?M = "Max (set vs)" and ?v = "vs ! i"
  have mem: "?v \<in> set vs" using i by simp
  have b: "?m \<le> ?v" "?v \<le> ?M" using mem by simp_all
  let ?r = "if ?M - ?m = 0 then 1 else ?M - ?m"
  let ?t = "(?v - ?m) / ?r"
  have rpos: "0 < ?r" using b by auto
  have t01: "0 \<le> ?t" "?t \<le> 1" using b rpos by (auto simp: divide_le_eq_1)
  have c: "c = \<lparr> cropped = map Fin vs, lo = Fin ?m, hi = Fin ?M \<rparr>"
    using cr lo hi by (rule crop_record)
  have n: "normalizeTo255 c ! i = word_of_int (round_half_up (?t * 255))"
    by (subst c, subst normalizeTo255_cell) (simp add: i)
  have len: "length (normalizeTo255 c) = length vs"
    by (subst c, subst normalizeTo255_cell) simp
  have spec: "normalizeSpec ?v ?m ?M eps = round_half_up (?t * 255)"
  proof (cases "?m < ?M")
    case True
    with eps(2) have "max (?M - ?m) eps = ?M - ?m" by simp
    moreover have "clamp ?t 0 1 = ?t" using t01 by (simp add: clamp_def)
    ultimately show ?thesis using True by (simp add: normalizeSpec_def)
  next
    case False
    with b have e: "?M = ?m" "?v = ?m" by simp_all
    then show ?thesis using eps(1) by (simp add: normalizeSpec_def clamp_def)
  qed
  have rb: "0 \<le> round_half_up (?t * 255)" "round_half_up (?t * 255) \<le> 255"
    using round_half_up_bounds [OF t01] by simp_all
  have u: "int (unat (normalizeTo255 c ! i)) = round_half_up (?t * 255)"
    unfolding n by (rule unat_byte [OF rb])
  have z: "normalizeTo255 c ! i = 0" if "?v = ?m"
    unfolding n using that by (simp add: round_half_up_def)
  have f: "normalizeTo255 c ! i = 255" if "?v = ?M" "?m < ?M"
  proof -
    from that have "?t = 1" by simp
    then show ?thesis unfolding n by (simp add: round_half_up_def)
  qed
  have k: "normalizeTo255 c ! i = 0" if "?m = ?M"
    using that b z by simp
  from len u spec rb z f k show ?thesis by simp
qed

theorem normalize_formula_witness:
  "normalizeTo255 \<lparr> cropped = map Fin [10, 20, 15], lo = Fin 10, hi = Fin 20 \<rparr> = [0, 255, 128]
   \<and> normalizeSpec 15 10 20 (1 / 256) = 128"
proof -
  let ?c = "\<lparr> cropped = map Fin [10, 20, 15], lo = Fin 10, hi = Fin 20 \<rparr>"
  have m: "Min (set [10, 20, 15 :: real]) = 10" "Max (set [10, 20, 15 :: real]) = 20" by simp_all
  have h: "cropped ?c = map Fin [10, 20, 15]" "lo ?c = Fin (Min (set [10, 20, 15]))"
    "hi ?c = Fin (Max (set [10, 20, 15]))" "(0::real) < 1 / 256"
    "Min (set [10, 20, 15 :: real]) < Max (set [10, 20, 15]) \<Longrightarrow>
       1 / 256 \<le> Max (set [10, 20, 15 :: real]) - Min (set [10, 20, 15])"
    by (simp_all add: m)
  have "int (unat (normalizeTo255 ?c ! 2)) = normalizeSpec ([10, 20, 15] ! 2) (Min (set [10, 20, 15])) (Max (set [10, 20, 15])) (1 / 256)"
    using normalize_formula [OF h, of 2] by simp
  moreover have "normalizeTo255 ?c = [0, 255, 128]"
    by (simp add: normalizeTo255_def js_or_def round_half_up_def)
  ultimately show ?thesis by (simp add: m)
qed
section \<open>The tile grid\<close>







section \<open>Failing tiles\<close>







section \<open>The reported elevation range\<close>



























section \<open>The .dat text\<close>

lemma digit_cases:
  assumes "d < 10"
  obtains "d = 0" | "d = 1" | "d = 2" | "d = 3" | "d = 4" | "d = 5" | "d = 6" | "d = 7"
    | "d = 8" | "d = (9::nat)"
  using assms by atomize_elim presburger

lemma digitVal_digitChar: "d < 10 \<Longrightarrow> digitVal (digitChar d) = d"
  by (erule digit_cases) (simp_all add: digitVal_def digitChar_def)

lemma digitChar_not_sep:
  assumes d: "d < 10"
  shows "digitChar d \<noteq> CHR '' ''" and "digitChar d \<noteq> CHR 0x0A"
  using d by (erule_tac [!] digit_cases) (simp_all add: digitChar_def)

lemma numToString_small: "n < 10 \<Longrightarrow> numToString n = [digitChar n]"
  by (subst numToString.simps) simp

lemma numToString_big:
  "\<not> n < 10 \<Longrightarrow> numToString n = numToString (n div 10) @ [digitChar (n mod 10)]"
  by (subst numToString.simps) simp

lemma numToString_chars: "c \<in> set (numToString n) \<Longrightarrow> c \<noteq> CHR '' '' \<and> c \<noteq> CHR 0x0A"
proof (induction n rule: numToString.induct)
  case (1 n)
  show ?case
  proof (cases "n < 10")
    case True
    with "1.prems" have "c = digitChar n" by (simp add: numToString_small)
    with True show ?thesis by (simp add: digitChar_not_sep)
  next
    case False
    have m: "n mod 10 < 10" by simp
    from False "1.prems" have "c \<in> set (numToString (n div 10)) \<or> c = digitChar (n mod 10)"
      by (auto simp: numToString_big)
    with "1.IH" False m show ?thesis by (auto simp: digitChar_not_sep)
  qed
qed

lemma numToString_nonempty: "numToString n \<noteq> []"
  by (cases "n < 10") (simp_all add: numToString_small numToString_big)

lemma parseNat_snoc: "parseNat (s @ [c]) = 10 * parseNat s + digitVal c"
  by (simp add: parseNat_def)

lemma parseNat_numToString: "parseNat (numToString n) = n"
proof (induction n rule: numToString.induct)
  case (1 n)
  show ?case
  proof (cases "n < 10")
    case True
    then show ?thesis by (simp add: numToString_small parseNat_def digitVal_digitChar)
  next
    case False
    then have "parseNat (numToString n) = 10 * parseNat (numToString (n div 10)) + n mod 10"
      by (simp add: numToString_big parseNat_snoc digitVal_digitChar)
    with "1.IH" False show ?thesis by simp
  qed
qed

lemma splitOn_nonempty: "splitOn c s \<noteq> []"
  by (induction s) (auto split: list.splits)

lemma splitOn_plain: "c \<notin> set w \<Longrightarrow> splitOn c w = [w]"
  by (induction w) auto

lemma splitOn_sep: "c \<notin> set w \<Longrightarrow> splitOn c (w @ c # rest) = w # splitOn c rest"
  by (induction w) auto

lemma splitOn_lines:
  "\<forall>l \<in> set ls. c \<notin> set l \<Longrightarrow> splitOn c (concat (map (\<lambda>l. l @ [c]) ls)) = ls @ [[]]"
  by (induction ls) (simp_all add: splitOn_sep)

lemma splitOn_join:
  "\<forall>t \<in> set ts. c \<notin> set t \<Longrightarrow> ts \<noteq> [] \<Longrightarrow> splitOn c (join [c] ts) = ts"
  by (induction "[c]" ts rule: join.induct) (simp_all add: splitOn_plain splitOn_sep)

lemma tokens_join:
  "\<forall>t \<in> set ts. c \<notin> set t \<and> t \<noteq> [] \<Longrightarrow>
   filter (\<lambda>t. t \<noteq> []) (splitOn c (join [c] ts)) = ts"
proof (cases "ts = []")
  case True
  then show ?thesis by simp
next
  case False
  assume a: "\<forall>t \<in> set ts. c \<notin> set t \<and> t \<noteq> []"
  then have "splitOn c (join [c] ts) = ts" using False by (intro splitOn_join) auto
  moreover have "filter (\<lambda>t. t \<noteq> []) ts = ts" using a by (simp add: filter_id_conv)
  ultimately show ?thesis by simp
qed

lemma set_join: "set (join sep ts) \<subseteq> set sep \<union> \<Union> (set ` set ts)"
  by (induction sep ts rule: join.induct) auto

lemma join_lines: "ls \<noteq> [] \<Longrightarrow> join [c] ls @ [c] = concat (map (\<lambda>l. l @ [c]) ls)"
  by (induction "[c]" ls rule: join.induct) simp_all

lemma rev_upt_map: "rev [0 ..< h] = map (\<lambda>i. h - 1 - i) [0 ..< h]"
  by (rule nth_equalityI) (simp_all add: rev_nth)

lemma cell_in_range:
  "length hm = w * h \<Longrightarrow> y < h \<Longrightarrow> x < w \<Longrightarrow>
   cellText (ta_get hm (int y * int w + int x)) = numToString (unat (hm ! (y * w + x)))"
proof -
  assume a: "length hm = w * h" "y < h" "x < w"
  have "y * w + x < Suc y * w" using a by simp
  also have "\<dots> \<le> h * w" using a by (intro mult_le_mono1) simp
  finally have lt: "y * w + x < length hm" using a by (simp add: mult.commute)
  have e: "int y * int w + int x = int (y * w + x)" by simp
  show ?thesis unfolding e ta_get_nat using lt by (simp add: cellText_def)
qed

lemma dat_line:
  assumes "length hm = w * h" and "y < h"
  shows "join '' '' (map (\<lambda>x. cellText (ta_get hm (int y * int w + int x))) [0 ..< nat (int w)])
       = rowText (hmRow hm w y)"
proof -
  have "map (\<lambda>x. cellText (ta_get hm (int y * int w + int x))) [0 ..< w]
      = map numToString (hmRow hm w y)"
    using assms by (simp add: hmRow_def cell_in_range)
  then show ?thesis by (simp add: rowText_def)
qed

lemma heightmapToDat_lines:
  assumes len: "length hm = w * h" and h: "0 < h"
  shows "heightmapToDat hm (int w) (int h)
       = concat (map (\<lambda>i. rowText (hmRow hm w (h - 1 - i)) @ [CHR 0x0A]) [0 ..< h])"
proof -
  have l: "map (\<lambda>y. join '' '' (map (\<lambda>x. cellText (ta_get hm (int y * int w + int x))) [0 ..< nat (int w)]))
               (rev [0 ..< h])
         = map (\<lambda>i. rowText (hmRow hm w (h - 1 - i))) [0 ..< h]"
    unfolding rev_upt_map map_map comp_def
  proof (rule map_cong [OF refl])
    fix i assume "i \<in> set [0 ..< h]"
    then have "h - 1 - i < h" using h by simp
    then show "join '' '' (map (\<lambda>x. cellText (ta_get hm (int (h - 1 - i) * int w + int x))) [0 ..< nat (int w)])
        = rowText (hmRow hm w (h - 1 - i))"
      by (rule dat_line [OF len])
  qed
  have ne: "map (\<lambda>i. rowText (hmRow hm w (h - 1 - i))) [0 ..< h] \<noteq> []" using h by simp
  have "heightmapToDat hm (int w) (int h)
      = join [CHR 0x0A] (map (\<lambda>i. rowText (hmRow hm w (h - 1 - i))) [0 ..< h]) @ [CHR 0x0A]"
    unfolding heightmapToDat_def using l by simp
  also have "\<dots> = concat (map (\<lambda>l. l @ [CHR 0x0A]) (map (\<lambda>i. rowText (hmRow hm w (h - 1 - i))) [0 ..< h]))"
    by (rule join_lines [OF ne])
  finally show ?thesis by (simp add: comp_def)
qed

lemma rowText_no_newline: "CHR 0x0A \<notin> set (rowText vs)"
proof
  assume "CHR 0x0A \<in> set (rowText vs)"
  with set_join [of "'' ''" "map numToString vs"]
  have "CHR 0x0A \<in> set '' '' \<union> \<Union> (set ` set (map numToString vs))"
    unfolding rowText_def by blast
  then obtain v where "CHR 0x0A \<in> set (numToString v)" by auto
  with numToString_chars show False by blast
qed

lemma rowText_tokens:
  "map parseNat (filter (\<lambda>t. t \<noteq> []) (splitOn CHR '' '' (rowText vs))) = vs"
proof -
  have "\<forall>t \<in> set (map numToString vs). CHR '' '' \<notin> set t \<and> t \<noteq> []"
    using numToString_chars numToString_nonempty by auto
  then have "filter (\<lambda>t. t \<noteq> []) (splitOn CHR '' '' (join [CHR '' ''] (map numToString vs)))
      = map numToString vs" by (rule tokens_join)
  then show ?thesis by (simp add: rowText_def comp_def parseNat_numToString)
qed

text \<open>
  C9. For a heightmap of \<open>w\<close> by \<open>h\<close> bytes with at least one row, the text is one line per
  row, each ended by a newline; line \<open>i\<close> is row \<open>h - 1 - i\<close> of the heightmap, its \<open>w\<close>
  values written in decimal and separated by one blank; reading the text back gives
  exactly those rows of numbers, bottom row first.
\<close>

theorem heightmapToDat_rows:
  assumes len: "length hm = w * h" and h: "0 < h"
  shows "heightmapToDat hm (int w) (int h)
           = concat (map (\<lambda>i. rowText (hmRow hm w (h - 1 - i)) @ [CHR 0x0A]) [0 ..< h])
       \<and> datRows (heightmapToDat hm (int w) (int h)) = map (\<lambda>i. hmRow hm w (h - 1 - i)) [0 ..< h]
       \<and> (\<forall>i < h. length (hmRow hm w (h - 1 - i)) = w)"
proof -
  let ?ls = "map (\<lambda>i. rowText (hmRow hm w (h - 1 - i))) [0 ..< h]"
  have t: "heightmapToDat hm (int w) (int h) = concat (map (\<lambda>l. l @ [CHR 0x0A]) ?ls)"
    using heightmapToDat_lines [OF len h] by (simp add: comp_def)
  have "splitOn (CHR 0x0A) (concat (map (\<lambda>l. l @ [CHR 0x0A]) ?ls)) = ?ls @ [[]]"
    by (rule splitOn_lines) (auto simp: rowText_no_newline)
  then have "datRows (heightmapToDat hm (int w) (int h))
      = map (\<lambda>l. map parseNat (filter (\<lambda>t. t \<noteq> []) (splitOn CHR '' '' l))) ?ls"
    unfolding datRows_def t by simp
  also have "\<dots> = map (\<lambda>i. hmRow hm w (h - 1 - i)) [0 ..< h]"
    by (simp add: comp_def rowText_tokens)
  finally have d: "datRows (heightmapToDat hm (int w) (int h)) = map (\<lambda>i. hmRow hm w (h - 1 - i)) [0 ..< h]" .
  show ?thesis using heightmapToDat_lines [OF len h] d by (simp add: hmRow_def)
qed

theorem heightmapToDat_rows_witness:
  "heightmapToDat [1, 20, 255, 4, 0, 6] 3 2 = ''4 0 6'' @ [CHR 0x0A] @ ''1 20 255'' @ [CHR 0x0A]
   \<and> datRows (heightmapToDat [1, 20, 255, 4, 0, 6] 3 2) = [[4, 0, 6], [1, 20, 255]]"
proof -
  have a: "length [1, 20, 255, 4, 0, 6 :: 8 word] = 3 * 2" "(0::nat) < 2" by simp_all
  have u: "[0 ..< 2] = [0, Suc 0]" "[0 ..< 3] = [0, Suc 0, 2]" by (simp_all add: upt_rec)
  from heightmapToDat_rows [OF a] show ?thesis
    by (elim conjE) (simp add: hmRow_def rowText_def u numToString_small numToString_big digitChar_def)
qed

end
